theory Spec2Isabelle
  imports Main "HOL-Library.Word" "HOL-Library.Char_ord" "HOL-Library.Monad_Syntax"
begin

unbundle bit_operations_syntax

section \<open>The email composer of agext/email\<close>

text \<open>
  A Go \<^verbatim>\<open>string\<close> and a \<^verbatim>\<open>[]byte\<close> are both sequences of bytes; they are modelled as
  \<^typ>\<open>string\<close>, a list of 8-bit characters. Byte comparisons such as
  \<^verbatim>\<open>'!' <= c && c <= '~'\<close> use the order of the byte values, bit operations
  read the byte as an \<^typ>\<open>8 word\<close>.
\<close>

subsection \<open>address.go: addresses\<close>

record Address =
  Name :: string
  Addr :: string

text \<open>
  \<^verbatim>\<open>SeemsValidAddr\<close> ranges over the runes of \<^verbatim>\<open>addr\<close>. A byte below 0x80 is its own
  rune; every rune decoded from bytes at or above 0x80 (the replacement rune
  included) is larger than \<^verbatim>\<open>'~'\<close>, so it takes the default branch and returns false,
  as the first such byte does here. The loop is therefore written over bytes;
  its four flags are the arguments of \<open>seems_loop\<close>.
\<close>

fun seems_loop :: "string \<Rightarrow> bool \<Rightarrow> bool \<Rightarrow> bool \<Rightarrow> bool \<Rightarrow> bool" where
  "seems_loop [] seenAt seenDom seenDot seenTld = seenTld"
| "seems_loop (char # rest) seenAt seenDom seenDot seenTld =
     (if char = CHR ''@'' then
        (if seenAt then False
         else seems_loop rest True seenDom seenDot seenTld)
      else if char = CHR ''.'' then
        seems_loop rest seenAt seenDom (seenAt \<and> seenDom) seenTld
      else if CHR ''!'' > char \<or> char > CHR ''~'' then False
      else if seenAt then
        (if char = CHR ''['' \<or> char = CHR '']'' \<or> char = CHR 0x5C then False
         else seems_loop rest seenAt (\<not> seenDot) seenDot seenDot)
      else seems_loop rest seenAt seenDom seenDot seenTld)"

definition SeemsValidAddr :: "string \<Rightarrow> bool" where
  "SeemsValidAddr addr = seems_loop addr False False False False"

text \<open>\<^verbatim>\<open>NewAddress\<close>: the error is the message of the Go error.\<close>

definition NewAddress :: "string \<Rightarrow> string \<Rightarrow> string + Address" where
  "NewAddress name addr =
     (if \<not> SeemsValidAddr addr then Inl (''invalid address: '' @ addr)
      else Inr \<lparr>Name = name, Addr = addr\<rparr>)"

subsection \<open>encoding.go: quoted-printable and Q-encoding\<close>

definition hextable :: string where
  "hextable = ''0123456789ABCDEF''"


definition CRLF :: string where
  "CRLF = [CHR 0x0D, CHR 0x0A]"

text \<open>
  Go's \<^verbatim>\<open>int\<close> on a 64-bit platform: a sum that leaves the range wraps around. Lengths
  are within the range; \<open>wrap64\<close> is applied where a caller's offset enters a sum.
\<close>

definition wrap64 :: "int \<Rightarrow> int" where
  "wrap64 x = (x + 2 ^ 63) mod 2 ^ 64 - 2 ^ 63"

text \<open>\<^verbatim>\<open>'=', hextable[c>>4], hextable[c&0x0f]\<close>\<close>

definition hexenc :: "char \<Rightarrow> string" where
  "hexenc c =
     [CHR ''='', hextable ! unat (drop_bit 4 (of_char c :: 8 word)),
      hextable ! unat ((of_char c :: 8 word) AND 0x0f)]"

text \<open>
  The inner loop after the first byte of a UTF-8 rune: it appends the escape of every
  following byte whose top two bits are 10 and stops in front of the first other byte.
  It returns \<open>enc\<close> and the input that is left.
\<close>

fun utf8_tail :: "string \<Rightarrow> string \<Rightarrow> string \<times> string" where
  "utf8_tail enc [] = (enc, [])"
| "utf8_tail enc (c # rest) =
     (if (of_char c :: 8 word) AND 0xC0 \<noteq> 0x80 then (enc, c # rest)
      else utf8_tail (enc @ hexenc c) rest)"

text \<open>
  One round of the \<^verbatim>\<open>switch\<close> of \<^verbatim>\<open>QuotedPrintableEncode\<close> on the byte \<open>c\<close>, with \<open>rest\<close>
  the input after it: the encoded unit \<open>enc\<close>, the flag \<open>eis\<close> and the input left.
\<close>

definition qp_switch :: "char \<Rightarrow> string \<Rightarrow> string \<times> bool \<times> string" where
  "qp_switch c rest =
     (if c = CHR 0x09 \<or> c = CHR '' '' then ([c], True, rest)
      else if CHR ''!'' \<le> c \<and> c \<le> CHR ''~'' \<and> c \<noteq> CHR ''='' then ([c], False, rest)
      else if (of_char c :: 8 word) AND 0xC0 = 0xC0 then
        (let (enc, rest') = utf8_tail (hexenc c) rest in (enc, False, rest'))
      else (hexenc c, False, rest))"

lemma utf8_tail_length:
  "utf8_tail enc rest = (enc', rest') \<Longrightarrow> length rest' \<le> length rest"
  by (induction enc rest rule: utf8_tail.induct) (auto split: if_splits)

lemma qp_switch_length:
  "(enc, er) = qp_switch c rest \<Longrightarrow> (eis, rest') = er \<Longrightarrow> length rest' < Suc (length rest)"
  by (auto simp: qp_switch_def split: prod.splits if_splits dest: utf8_tail_length)

function qp_loop :: "string \<Rightarrow> int \<Rightarrow> string \<Rightarrow> bool \<Rightarrow> string" where
  "qp_loop [] pos dst eis = (if eis then dst @ ''='' else dst)"
| "qp_loop (c # rest) pos dst eis =
     (case qp_switch c rest of (enc, eis', rest') \<Rightarrow>
        (let le = int (length enc); pos = pos + le in
         if pos > 75 then qp_loop rest' le (dst @ ''='' @ CRLF @ enc) eis'
         else qp_loop rest' pos (dst @ enc) eis'))"
  by pat_completeness auto
termination
  by (relation "measure (\<lambda>(src, pos, dst, eis). length src)")
    (auto dest: qp_switch_length)

definition QuotedPrintableEncode :: "string \<Rightarrow> string" where
  "QuotedPrintableEncode src = (if src = [] then [] else qp_loop src 0 [] False)"

definition q_switch :: "char \<Rightarrow> string \<Rightarrow> string \<times> string" where
  "q_switch c rest =
     (if c = CHR '' '' then (''_'', rest)
      else if CHR ''!'' \<le> c \<and> c \<le> CHR ''~'' \<and> c \<noteq> CHR ''='' \<and> c \<noteq> CHR ''?'' \<and> c \<noteq> CHR ''_''
        then ([c], rest)
      else if (of_char c :: 8 word) AND 0xC0 = 0xC0 then utf8_tail (hexenc c) rest
      else (hexenc c, rest))"

lemma q_switch_length:
  "(enc, rest') = q_switch c rest \<Longrightarrow> length rest' < Suc (length rest)"
  by (auto simp: q_switch_def split: prod.splits if_splits dest: utf8_tail_length [OF sym])

function q_loop :: "string \<Rightarrow> int \<Rightarrow> string \<Rightarrow> string \<times> int" where
  "q_loop [] pos dst = (dst @ ''?='', wrap64 (pos + 2))"
| "q_loop (c # rest) pos dst =
     (case q_switch c rest of (enc, rest') \<Rightarrow>
        (let le = int (length enc); pos = wrap64 (pos + le) in
         if pos > 74 then
           (if length dst > 0 then q_loop rest' (le + 11) (dst @ ''?='' @ CRLF @ '' =?utf-8?q?'' @ enc)
            else q_loop rest' (le + 11) (dst @ CRLF @ '' =?utf-8?q?'' @ enc))
         else
           (if length dst = 0 then q_loop rest' pos (dst @ ''=?utf-8?q?'' @ enc)
            else q_loop rest' pos (dst @ enc))))"
  by pat_completeness auto
termination
  by (relation "measure (\<lambda>(src, pos, dst). length src)")
    (auto dest: q_switch_length)

definition QEncode :: "string \<Rightarrow> int \<Rightarrow> string \<times> int" where
  "QEncode src offset =
     (if src = [] then ([], offset)
      else q_loop src (wrap64 (10 + (if offset < 1 then 1 else offset))) [])"


text \<open>\<^verbatim>\<open>QEncodeIfNeeded\<close>: the loop runs while \<open>safe\<close> holds.\<close>

fun all_safe :: "string \<Rightarrow> bool \<Rightarrow> bool" where
  "all_safe [] safe = safe"
| "all_safe (c # rest) safe =
     (if safe then all_safe rest (CHR '' '' \<le> c \<and> c \<le> CHR ''~'') else safe)"

definition QEncodeIfNeeded :: "string \<Rightarrow> int \<Rightarrow> string" where
  "QEncodeIfNeeded src offset =
     (if all_safe src True then src else fst (QEncode src offset))"

subsection \<open>encoding.go: base64\<close>







subsection \<open>address.go: encoding an address\<close>

text \<open>The first loop of \<^verbatim>\<open>encode\<close> over the name: it counts quotes and backslashes in
  \<open>nq\<close> and stops at the first byte that is not printable ASCII.\<close>

fun name_scan :: "string \<Rightarrow> int \<Rightarrow> bool \<Rightarrow> int \<times> bool" where
  "name_scan [] nq safe = (nq, safe)"
| "name_scan (c # rest) nq safe =
     (if safe then
        name_scan rest (if c = CHR 0x5C \<or> c = CHR 0x22 then nq + 1 else nq)
          (CHR '' '' \<le> c \<and> c \<le> CHR ''~'')
      else (nq, safe))"

text \<open>The second loop: the name is appended, with a backslash before each quote and
  backslash.\<close>

fun quote_name :: "string \<Rightarrow> string \<Rightarrow> string" where
  "quote_name dst [] = dst"
| "quote_name dst (c # rest) =
     quote_name ((if c = CHR 0x5C \<or> c = CHR 0x22 then dst @ [CHR 0x5C] else dst) @ [c]) rest"

definition encode :: "Address \<Rightarrow> int \<Rightarrow> string \<times> int" where
  "encode a offset =
     (let la = int (length (Addr a)); ln = int (length (Name a));
          (dst, offset) =
            (if ln > 0 then
               (case name_scan (Name a) 0 True of (nq, safe) \<Rightarrow>
                  if safe then
                    (let dst = quote_name [CHR 0x22] (Name a);
                         offset = wrap64 (offset + (ln + nq + 3))
                     in if wrap64 (offset + la) \<le> 74 then (dst @ [CHR 0x22, CHR '' ''], offset)
                        else (dst @ [CHR 0x22] @ CRLF @ '' '', 1))
                  else
                    (case QEncode (Name a) offset of (buf, offset) \<Rightarrow>
                       (let dst = buf; offset = wrap64 (offset + 1)
                        in if wrap64 (offset + la) \<le> 74 then (dst @ '' '', offset)
                           else (dst @ CRLF @ '' '', 1))))
             else
               (if wrap64 (offset + la) \<le> 74 then ([], offset)
                else (CRLF @ '' '', 1)))
      in (dst @ ''<'' @ Addr a @ ''>'', wrap64 (offset + (la + 2))))"

subsection \<open>message.go: the data model\<close>

datatype CTE = AutoCTE | QuotedPrintable | Base64

record Sender =
  host :: string
  port :: int
  username :: string
  password :: string
  address :: "Address option"

text \<open>
  A parsed template is determined by its source text, so a \<^verbatim>\<open>*Template\<close> is modelled
  as the source it was parsed from (\<open>None\<close> is the nil pointer). Field names that
  several Go structs share are prefixed with the struct they belong to.
\<close>

record Related =
  rel_id :: string
  rel_ctype :: string
  rel_fileName :: string
  rel_data :: string

record part =
  part_ctype :: string
  part_cte :: CTE
  part_bytes :: string
  tplSrc :: string
  tpl :: "string option"
  htmlTplSrc :: string
  htmlTpl :: "string option"
  related :: "Related list"

record attachment =
  att_name :: string
  att_ctype :: string
  att_fileName :: string
  att_data :: string

text \<open>
  A Message holds its parts and attachments through pointers (\<^verbatim>\<open>[]*part\<close>,
  \<^verbatim>\<open>[]*attachment\<close>, and \<^verbatim>\<open>text\<close>, \<^verbatim>\<open>html\<close> pointing into \<^verbatim>\<open>parts\<close>). A pointer is an
  address (a natural number) into the store \<open>heap\<close>. Addresses (\<^verbatim>\<open>*Address\<close>) are
  never written through by this package and are cloned by value, so they are kept
  as values; \<open>None\<close> is nil. The error list holds the messages of the Go errors.
\<close>

record heap =
  part_at :: "nat \<Rightarrow> part"
  att_at :: "nat \<Rightarrow> attachment"
  next_ref :: nat

record Message =
  m_domain :: string
  m_subject :: string
  m_subjectTplSrc :: string
  m_subjectTpl :: "string option"
  m_sender :: "Sender option"
  m_from :: "Address option"
  m_replyTo :: "Address option"
  m_to :: "Address list"
  m_cc :: "Address list"
  m_bcc :: "Address list"
  m_parts :: "nat list"
  m_text :: "nat option"
  m_html :: "nat option"
  m_attachments :: "nat list"
  m_errors :: "string list"
  m_prepared :: bool

text \<open>\<^verbatim>\<open>&Message{prepared: true}\<close>, the Message that \<^verbatim>\<open>NewMessage(nil)\<close> returns.\<close>

definition zero_Message :: Message where
  "zero_Message =
     \<lparr>m_domain = [], m_subject = [], m_subjectTplSrc = [], m_subjectTpl = None,
      m_sender = None, m_from = None, m_replyTo = None, m_to = [], m_cc = [], m_bcc = [],
      m_parts = [], m_text = None, m_html = None, m_attachments = [], m_errors = [],
      m_prepared = True\<rparr>"

subsection \<open>message.go: the address setters\<close>

definition From :: "Message \<Rightarrow> Address option \<Rightarrow> Message" where
  "From m addr =
     (let addr = (case addr of
                    None \<Rightarrow> None
                  | Some a \<Rightarrow> if \<not> SeemsValidAddr (Addr a) then None else Some a)
      in m\<lparr>m_from := addr\<rparr>)"

definition ReplyTo :: "Message \<Rightarrow> Address option \<Rightarrow> Message" where
  "ReplyTo m addr =
     (let addr = (case addr of
                    None \<Rightarrow> None
                  | Some a \<Rightarrow> if \<not> SeemsValidAddr (Addr a) then None else Some a)
      in m\<lparr>m_replyTo := addr\<rparr>)"

text \<open>The loop shared by \<^verbatim>\<open>To\<close>, \<^verbatim>\<open>Cc\<close> and \<^verbatim>\<open>Bcc\<close>: \<open>lst\<close> grows by \<^verbatim>\<open>append\<close>.\<close>

fun valid_addrs :: "Address list \<Rightarrow> Address option list \<Rightarrow> Address list" where
  "valid_addrs lst [] = lst"
| "valid_addrs lst (None # addr) = valid_addrs lst addr"
| "valid_addrs lst (Some a # addr) =
     (if SeemsValidAddr (Addr a) then valid_addrs (lst @ [a]) addr
      else valid_addrs lst addr)"

definition To :: "Message \<Rightarrow> Address option list \<Rightarrow> Message" where
  "To m addr = m\<lparr>m_to := valid_addrs [] addr\<rparr>"

definition Cc :: "Message \<Rightarrow> Address option list \<Rightarrow> Message" where
  "Cc m addr = m\<lparr>m_cc := valid_addrs [] addr\<rparr>"

definition Bcc :: "Message \<Rightarrow> Address option list \<Rightarrow> Message" where
  "Bcc m addr = m\<lparr>m_bcc := valid_addrs [] addr\<rparr>"

text \<open>The invariant of the stored addresses: each one passes \<open>SeemsValidAddr\<close>.\<close>

definition opt_valid :: "Address option \<Rightarrow> bool" where
  "opt_valid a = (case a of None \<Rightarrow> True | Some x \<Rightarrow> SeemsValidAddr (Addr x))"

definition addrs_valid :: "Message \<Rightarrow> bool" where
  "addrs_valid m =
     (opt_valid (m_from m) \<and> opt_valid (m_replyTo m) \<and>
      list_all (\<lambda>a. SeemsValidAddr (Addr a)) (m_to m) \<and>
      list_all (\<lambda>a. SeemsValidAddr (Addr a)) (m_cc m) \<and>
      list_all (\<lambda>a. SeemsValidAddr (Addr a)) (m_bcc m))"

text \<open>What the setters keep of an argument list: the non-nil, valid entries, in order.\<close>

definition kept :: "Address option list \<Rightarrow> Address list" where
  "kept addr = concat (map (\<lambda>a. case a of None \<Rightarrow> [] | Some x \<Rightarrow>
                 if SeemsValidAddr (Addr x) then [x] else []) addr)"

subsection \<open>Decoding, as the specification describes it\<close>

text \<open>A byte whose two top bits are set starts a UTF-8 sequence; the bytes that
  continue it have the top bits 10.\<close>

definition is_lead :: "char \<Rightarrow> bool" where
  "is_lead c = ((of_char c :: 8 word) AND 0xC0 = 0xC0)"

definition is_cont :: "char \<Rightarrow> bool" where
  "is_cont c = ((of_char c :: 8 word) AND 0xC0 = 0x80)"

text \<open>The input cut into units: a lead byte together with the continuation bytes
  that follow it, every other byte on its own.\<close>

function units :: "string \<Rightarrow> string list" where
  "units [] = []"
| "units (c # cs) =
     (if is_lead c then (c # takeWhile is_cont cs) # units (dropWhile is_cont cs)
      else [c] # units cs)"
  by pat_completeness auto
termination
  by (relation "measure length") (auto simp: length_dropWhile_le less_Suc_eq_le)

text \<open>\<open>remove_all m xs\<close> removes the occurrences of the marker \<open>m\<close> from \<open>xs\<close>, from left
  to right.\<close>

function remove_all :: "string \<Rightarrow> string \<Rightarrow> string" where
  "remove_all m [] = []"
| "remove_all m (c # cs) =
     (if m \<noteq> [] \<and> take (length m) (c # cs) = m
      then remove_all m (drop (length m) (c # cs))
      else c # remove_all m cs)"
  by pat_completeness auto
termination
  by (relation "measure (\<lambda>(m, xs). length xs)") (auto simp: Suc_le_eq)

definition is_hex :: "char \<Rightarrow> bool" where
  "is_hex c = (c \<in> set hextable)"

definition hexval :: "char \<Rightarrow> nat" where
  "hexval c = (if c \<le> CHR ''9'' then of_char c - 48 else of_char c - 55)"

text \<open>Un-escaping every \<^verbatim>\<open>=XX\<close>; any other byte stays. With \<open>q\<close>, an underscore is a
  space. With \<open>soft\<close>, a lone \<^verbatim>\<open>=\<close> that ends the text is dropped: it is a soft break
  whose line end the caller writes.\<close>

fun unescape :: "bool \<Rightarrow> bool \<Rightarrow> string \<Rightarrow> string" where
  "unescape soft q [] = []"
| "unescape soft q (c # rest) =
     (if c = CHR ''='' then
        (case rest of
           h # l # rest' \<Rightarrow>
             if is_hex h \<and> is_hex l
             then char_of (16 * hexval h + hexval l) # unescape soft q rest'
             else c # unescape soft q rest
         | [] \<Rightarrow> if soft then [] else [c]
         | _ \<Rightarrow> c # unescape soft q rest)
      else (if q \<and> c = CHR ''_'' then CHR '' '' else c) # unescape soft q rest)"

definition soft_break :: string where
  "soft_break = ''='' @ CRLF"

definition q_fold :: string where
  "q_fold = ''?='' @ CRLF @ '' =?utf-8?q?''"

text \<open>Quoted-printable decoding in the words of the specification: remove the soft
  breaks \<^verbatim>\<open>=CRLF\<close>, then un-escape.\<close>

definition qp_decode_strict :: "string \<Rightarrow> string" where
  "qp_decode_strict xs = unescape False False (remove_all soft_break xs)"

definition qp_decode :: "string \<Rightarrow> string" where
  "qp_decode xs = unescape True False (remove_all soft_break xs)"

text \<open>Q-decoding: the encoded-word delimiters around the text (with the fold that may
  precede the first word) are taken off, the folds between words
  \<^verbatim>\<open>?=CRLF space=?utf-8?q?\<close> are removed, every \<^verbatim>\<open>=XX\<close> is un-escaped and \<^verbatim>\<open>_\<close> is a space.\<close>

definition strip_prefix :: "string \<Rightarrow> string \<Rightarrow> string" where
  "strip_prefix p xs = (if take (length p) xs = p then drop (length p) xs else xs)"

definition strip_suffix :: "string \<Rightarrow> string \<Rightarrow> string" where
  "strip_suffix s xs =
     (if length s \<le> length xs \<and> drop (length xs - length s) xs = s
      then take (length xs - length s) xs else xs)"

definition q_decode :: "string \<Rightarrow> string" where
  "q_decode xs =
     unescape False True (remove_all q_fold
       (strip_suffix ''?='' (strip_prefix ''=?utf-8?q?'' (strip_prefix (CRLF @ '' '') xs))))"

text \<open>The encoding of one unit.\<close>

definition qp_byte :: "char \<Rightarrow> string" where
  "qp_byte c =
     (if c = CHR 0x09 \<or> c = CHR '' '' \<or> (CHR ''!'' \<le> c \<and> c \<le> CHR ''~'' \<and> c \<noteq> CHR ''='')
      then [c] else hexenc c)"

definition q_byte :: "char \<Rightarrow> string" where
  "q_byte c =
     (if c = CHR '' '' then ''_''
      else if CHR ''!'' \<le> c \<and> c \<le> CHR ''~'' \<and> c \<noteq> CHR ''='' \<and> c \<noteq> CHR ''?'' \<and> c \<noteq> CHR ''_''
      then [c] else hexenc c)"

definition ends_ws :: "string \<Rightarrow> bool" where
  "ends_ws src = (src \<noteq> [] \<and> (last src = CHR 0x09 \<or> last src = CHR '' ''))"

text \<open>One unit in the output of \<open>QuotedPrintableEncode\<close> and of \<open>QEncode\<close>: the encoding
  of its bytes, after a soft break or a fold when \<open>b\<close> holds.\<close>

definition qp_piece :: "bool \<Rightarrow> string \<Rightarrow> string" where
  "qp_piece b u = (if b then soft_break else []) @ concat (map qp_byte u)"

definition q_piece :: "bool \<Rightarrow> string \<Rightarrow> string" where
  "q_piece b u = (if b then q_fold else []) @ concat (map q_byte u)"


subsection \<open>Base64, as the specification describes it\<close>







section \<open>Properties\<close>

subsection \<open>SeemsValidAddr\<close>

lemma seems_loop_second_at:
  "CHR ''@'' \<in> set xs \<Longrightarrow> \<not> seems_loop xs True dm dt tld"
proof (induction xs arbitrary: dm dt tld)
  case Nil
  then show ?case by simp
next
  case (Cons a xs)
  show ?case
  proof (cases "a = CHR ''@''")
    case True
    then show ?thesis by simp
  next
    case False
    with Cons.prems have "CHR ''@'' \<in> set xs" by auto
    then have "\<not> seems_loop xs True dm' dt' tld'" for dm' dt' tld'
      by (rule Cons.IH)
    then show ?thesis by simp
  qed
qed

lemma seems_loop_no_at:
  "CHR ''@'' \<notin> set xs \<Longrightarrow> \<not> seems_loop xs False dm False False"
proof (induction xs arbitrary: dm)
  case Nil
  then show ?case by simp
next
  case (Cons a xs)
  then have "\<not> seems_loop xs False dm' False False" for dm'
    by simp
  moreover from Cons.prems have "a \<noteq> CHR ''@''" by auto
  ultimately show ?case by simp
qed

lemma seems_loop_no_dot:
  "CHR ''.'' \<notin> set xs \<Longrightarrow> \<not> seems_loop xs at dm False False"
proof (induction xs arbitrary: at dm)
  case Nil
  then show ?case by simp
next
  case (Cons a xs)
  then have "\<not> seems_loop xs at' dm' False False" for at' dm'
    by simp
  moreover from Cons.prems have "a \<noteq> CHR ''.''" by auto
  ultimately show ?case by simp
qed

lemma seems_loop_bracket:
  "c \<in> set xs \<Longrightarrow> c = CHR ''['' \<or> c = CHR '']'' \<or> c = CHR 0x5C \<Longrightarrow>
   \<not> seems_loop xs True dm dt tld"
proof (induction xs arbitrary: dm dt tld)
  case Nil
  then show ?case by simp
next
  case (Cons a xs)
  show ?case
  proof (cases "a = c")
    case True
    with Cons.prems(2) show ?thesis by auto
  next
    case False
    with Cons.prems have "c \<in> set xs" by simp
    then have "\<not> seems_loop xs True dm' dt' tld'" for dm' dt' tld'
      using Cons.prems(2) by (rule Cons.IH)
    then show ?thesis by simp
  qed
qed

lemma seems_loop_local_part:
  "(\<And>dm. \<not> seems_loop d True dm False False) \<Longrightarrow>
   \<not> seems_loop (l @ CHR ''@'' # d) False dm False False"
proof (induction l arbitrary: dm)
  case Nil
  then show ?case by simp
next
  case (Cons c l)
  show ?case
  proof (cases "c = CHR ''@''")
    case True
    have "CHR ''@'' \<in> set (l @ CHR ''@'' # d)" by simp
    from seems_loop_second_at [OF this] True show ?thesis by simp
  next
    case False
    with Cons show ?thesis by simp
  qed
qed

lemma SeemsValidAddr_no_at:
  "CHR ''@'' \<notin> set addr \<Longrightarrow> \<not> SeemsValidAddr addr"
  by (simp add: SeemsValidAddr_def seems_loop_no_at)

lemma SeemsValidAddr_two_at:
  "\<not> SeemsValidAddr (a @ CHR ''@'' # b @ CHR ''@'' # c)"
proof -
  have "\<not> seems_loop (b @ CHR ''@'' # c) True dm False False" for dm
    by (rule seems_loop_second_at) simp
  then show ?thesis
    unfolding SeemsValidAddr_def by (rule seems_loop_local_part)
qed

lemma SeemsValidAddr_no_dot:
  "CHR ''.'' \<notin> set d \<Longrightarrow> \<not> SeemsValidAddr (l @ CHR ''@'' # d)"
  unfolding SeemsValidAddr_def
  by (rule seems_loop_local_part) (rule seems_loop_no_dot)

lemma SeemsValidAddr_bracket:
  "c \<in> set d \<Longrightarrow> c = CHR ''['' \<or> c = CHR '']'' \<or> c = CHR 0x5C \<Longrightarrow>
   \<not> SeemsValidAddr (l @ CHR ''@'' # d)"
  unfolding SeemsValidAddr_def
  by (rule seems_loop_local_part) (rule seems_loop_bracket)

text \<open>
  C5. \<open>SeemsValidAddr\<close> is to accept ordinary addresses of the form
  user@sub.domain.tld. The code rejects this very address: the second dt of the
  domain finds \<open>seenDom\<close> reset by the label before it and clears \<open>seenDot\<close>, so
  the last label no longer counts as a top-level domain. (The rejections the claim
  lists hold: \<open>SeemsValidAddr_no_at\<close>, \<open>SeemsValidAddr_two_at\<close>,
  \<open>SeemsValidAddr_no_dot\<close>, \<open>SeemsValidAddr_bracket\<close>.)
\<close>

theorem SeemsValidAddr_rejects_three_labels:
  "SeemsValidAddr ''user@sub.domain.tld'' = False \<and>
   SeemsValidAddr ''user@domain.tld'' = True"
  by (simp add: SeemsValidAddr_def less_char_def)

subsection \<open>The address setters\<close>

lemma valid_addrs_kept: "valid_addrs lst addr = lst @ kept addr"
  by (induction lst addr rule: valid_addrs.induct) (simp_all add: kept_def)

lemma list_all_kept: "list_all (\<lambda>a. SeemsValidAddr (Addr a)) (kept addr)"
  by (induction addr) (auto simp: kept_def split: option.splits)

text \<open>
  C10. Every address setter keeps the invariant that all addresses stored in the
  Message pass \<open>SeemsValidAddr\<close>: \<open>From\<close> and \<open>ReplyTo\<close> store nil in place of an
  invalid address, \<open>To\<close>, \<open>Cc\<close> and \<open>Bcc\<close> store the non-nil, valid entries of their
  argument list, and none of them touches the error list.
\<close>

theorem setters_keep_addrs_valid:
  assumes "addrs_valid m"
  shows "addrs_valid (From m a) \<and> addrs_valid (ReplyTo m a) \<and>
         addrs_valid (To m as) \<and> addrs_valid (Cc m as) \<and> addrs_valid (Bcc m as) \<and>
         m_from (From m a) = (if opt_valid a then a else None) \<and>
         m_replyTo (ReplyTo m a) = (if opt_valid a then a else None) \<and>
         m_to (To m as) = kept as \<and> m_cc (Cc m as) = kept as \<and>
         m_bcc (Bcc m as) = kept as \<and>
         m_errors (From m a) = m_errors m \<and> m_errors (ReplyTo m a) = m_errors m \<and>
         m_errors (To m as) = m_errors m \<and> m_errors (Cc m as) = m_errors m \<and>
         m_errors (Bcc m as) = m_errors m"
  using assms
  by (auto simp: addrs_valid_def From_def ReplyTo_def To_def Cc_def Bcc_def opt_valid_def
      valid_addrs_kept list_all_kept split: option.splits)

theorem setters_keep_addrs_valid_witness:
  "addrs_valid zero_Message \<and>
   addrs_valid (To zero_Message
     [None, Some \<lparr>Name = ''a'', Addr = ''a@example.com''\<rparr>, Some \<lparr>Name = ''b'', Addr = ''b@example''\<rparr>]) \<and>
   m_to (To zero_Message
     [None, Some \<lparr>Name = ''a'', Addr = ''a@example.com''\<rparr>, Some \<lparr>Name = ''b'', Addr = ''b@example''\<rparr>])
     = [\<lparr>Name = ''a'', Addr = ''a@example.com''\<rparr>] \<and>
   m_from (From zero_Message (Some \<lparr>Name = ''b'', Addr = ''b@example''\<rparr>)) = None \<and>
   m_errors (From zero_Message (Some \<lparr>Name = ''b'', Addr = ''b@example''\<rparr>)) = []"
proof -
  have h: "addrs_valid zero_Message"
    by (simp add: addrs_valid_def zero_Message_def opt_valid_def)
  show ?thesis
    using h setters_keep_addrs_valid [OF h, of "Some \<lparr>Name = ''b'', Addr = ''b@example''\<rparr>"
        "[None, Some \<lparr>Name = ''a'', Addr = ''a@example.com''\<rparr>, Some \<lparr>Name = ''b'', Addr = ''b@example''\<rparr>]"]
    by (simp add: kept_def opt_valid_def SeemsValidAddr_def less_char_def zero_Message_def)
qed

subsection \<open>Hexadecimal escapes\<close>

lemma hextable_all:
  "list_all (\<lambda>n. is_hex (hextable ! n) \<and> hexval (hextable ! n) = n \<and>
      hextable ! n \<noteq> CHR ''='' \<and> hextable ! n \<noteq> CHR 0x0D \<and>
      hextable ! n \<noteq> CHR ''?'' \<and> hextable ! n \<noteq> CHR ''_'') [0..<16]"
  by code_simp

lemma hextable_nth:
  assumes "n < 16"
  shows "is_hex (hextable ! n)" and "hexval (hextable ! n) = n"
    and "hextable ! n \<noteq> CHR ''=''" and "hextable ! n \<noteq> CHR 0x0D"
    and "hextable ! n \<noteq> CHR ''?''" and "hextable ! n \<noteq> CHR ''_''"
proof -
  from assms have "n \<in> set [0..<16]" by simp
  with hextable_all show "is_hex (hextable ! n)" and "hexval (hextable ! n) = n"
    and "hextable ! n \<noteq> CHR ''=''" and "hextable ! n \<noteq> CHR 0x0D"
    and "hextable ! n \<noteq> CHR ''?''" and "hextable ! n \<noteq> CHR ''_''"
    unfolding list_all_iff by blast+
qed

lemma unat_of_char: "unat (of_char c :: 8 word) = of_char c"
proof -
  have "(of_char c :: 8 word) = of_nat (of_char c)"
    by (simp only: of_nat_of_char)
  then have "unat (of_char c :: 8 word) = (of_char c :: nat) mod 256"
    by (simp add: unat_of_nat)
  then show ?thesis
    by (simp add: of_char_mod_256)
qed

lemma hi_nibble: "unat (drop_bit 4 (of_char c :: 8 word)) = of_char c div 16"
  by (simp add: unat_div unat_of_char drop_bit_eq_div)

lemma lo_nibble: "unat ((of_char c :: 8 word) AND 0x0f) = of_char c mod 16"
proof -
  have "(of_char c :: 8 word) AND 0x0f = take_bit 4 (of_char c)"
    by (simp add: take_bit_eq_mask mask_eq_exp_minus_1)
  then show ?thesis
    by (simp add: unat_mod unat_of_char take_bit_eq_mod)
qed

lemma hexenc_parts:
  "\<exists>h l. hexenc c = [CHR ''='', h, l] \<and> is_hex h \<and> is_hex l \<and>
      char_of (16 * hexval h + hexval l) = c \<and>
      h \<noteq> CHR ''='' \<and> l \<noteq> CHR ''='' \<and> h \<noteq> CHR 0x0D \<and> h \<noteq> CHR ''?'' \<and> l \<noteq> CHR ''?''
      \<and> h \<noteq> CHR ''_'' \<and> l \<noteq> CHR ''_''"
proof -
  have lt: "(of_char c :: nat) div 16 < 16" "(of_char c :: nat) mod 16 < 16"
    using of_char_mod_256 [of c, where ?'a = nat]
    by (simp_all add: less_mult_imp_div_less)
  have "char_of (16 * ((of_char c :: nat) div 16) + of_char c mod 16) = c"
    by simp
  with hextable_nth [OF lt(1)] hextable_nth [OF lt(2)] show ?thesis
    by (simp add: hexenc_def hi_nibble lo_nibble)
qed

subsection \<open>The structure of the quoted-printable output\<close>

lemma lead_ge: "is_lead c \<Longrightarrow> 192 \<le> (of_char c :: nat)"
proof -
  assume "is_lead c"
  then have "(0xC0 :: 8 word) = of_char c AND 0xC0" by (simp add: is_lead_def)
  also have "\<dots> \<le> of_char c" by (rule word_and_le2)
  finally have "unat (0xC0 :: 8 word) \<le> unat (of_char c :: 8 word)"
    by (simp add: word_le_nat_alt)
  then show ?thesis by (simp add: unat_of_char)
qed

lemma cont_ge: "is_cont c \<Longrightarrow> 128 \<le> (of_char c :: nat)"
proof -
  assume "is_cont c"
  then have "(0x80 :: 8 word) = of_char c AND 0xC0" by (simp add: is_cont_def)
  also have "\<dots> \<le> of_char c" by (rule word_and_le2)
  finally have "unat (0x80 :: 8 word) \<le> unat (of_char c :: 8 word)"
    by (simp add: word_le_nat_alt)
  then show ?thesis by (simp add: unat_of_char)
qed

lemma high_qp_byte: "128 \<le> (of_char c :: nat) \<Longrightarrow> qp_byte c = hexenc c"
  by (auto simp: qp_byte_def less_eq_char_def)

lemma high_not_ws: "128 \<le> (of_char c :: nat) \<Longrightarrow> c \<noteq> CHR 0x09 \<and> c \<noteq> CHR '' ''"
  by auto

lemma utf8_tail_eq:
  "utf8_tail enc rest = (enc @ concat (map hexenc (takeWhile is_cont rest)), dropWhile is_cont rest)"
  by (induction enc rest rule: utf8_tail.induct) (simp_all add: is_cont_def)

lemma map_qp_byte_cont:
  "map qp_byte (takeWhile is_cont rest) = map hexenc (takeWhile is_cont rest)"
  by (rule map_cong [OF refl]) (auto dest!: set_takeWhileD cont_ge high_qp_byte)

lemma ends_ws_lead:
  assumes "is_lead c"
  shows "\<not> ends_ws (c # takeWhile is_cont rest)"
proof -
  have "last (c # takeWhile is_cont rest) \<in> set (c # takeWhile is_cont rest)"
    by (rule last_in_set) simp
  then have "128 \<le> (of_char (last (c # takeWhile is_cont rest)) :: nat)"
    using lead_ge [OF assms] by (auto dest!: set_takeWhileD cont_ge simp del: last.simps)
  from high_not_ws [OF this] show ?thesis by (simp add: ends_ws_def del: last.simps)
qed

lemma qp_switch_units:
  "\<exists>u rest'. units (c # rest) = u # units rest' \<and> c # rest = u @ rest' \<and> u \<noteq> [] \<and>
     qp_switch c rest = (concat (map qp_byte u), ends_ws u, rest')"
proof (cases "is_lead c")
  case True
  let ?u = "c # takeWhile is_cont rest"
  have hi: "128 \<le> (of_char c :: nat)" using lead_ge [OF True] by simp
  have "qp_switch c rest = (hexenc c @ concat (map hexenc (takeWhile is_cont rest)), False,
      dropWhile is_cont rest)"
    using True lead_ge [OF True]
    by (auto simp: qp_switch_def utf8_tail_eq is_lead_def less_eq_char_def)
  then have "qp_switch c rest = (concat (map qp_byte ?u), ends_ws ?u, dropWhile is_cont rest)"
    using ends_ws_lead [OF True, of rest] by (simp add: high_qp_byte [OF hi] map_qp_byte_cont)
  moreover have "units (c # rest) = ?u # units (dropWhile is_cont rest)"
    using True by simp
  ultimately show ?thesis by (intro exI [of _ ?u] exI [of _ "dropWhile is_cont rest"]) simp
next
  case False
  then have "qp_switch c rest = (qp_byte c, c = CHR 0x09 \<or> c = CHR '' '', rest)"
    by (auto simp: qp_switch_def qp_byte_def is_lead_def)
  then have "qp_switch c rest = (concat (map qp_byte [c]), ends_ws [c], rest)"
    by (simp add: ends_ws_def)
  moreover have "units (c # rest) = [c] # units rest"
    using False by simp
  ultimately show ?thesis by (intro exI [of _ "[c]"] exI [of _ rest]) simp
qed

lemma ends_ws_append:
  "ends_ws (u @ r) = (if r = [] then ends_ws u else ends_ws r)"
  by (simp add: ends_ws_def)

lemma qp_loop_struct:
  "\<exists>bs. length bs = length (units src) \<and>
     qp_loop src pos dst eis =
       dst @ concat (map2 qp_piece bs (units src)) @
         (if (if src = [] then eis else ends_ws src) then ''='' else [])"
proof (induction src pos dst eis rule: qp_loop.induct)
  case (1 pos dst eis)
  show ?case by simp
next
  case (2 c rest pos dst eis)
  obtain u rest' where u: "units (c # rest) = u # units rest'" "c # rest = u @ rest'"
      "u \<noteq> []" "qp_switch c rest = (concat (map qp_byte u), ends_ws u, rest')"
    using qp_switch_units by blast
  let ?enc = "concat (map qp_byte u)"
  let ?le = "int (length ?enc)"
  let ?tail = "if ends_ws (c # rest) then ''='' else []"
  have tail: "(if (if rest' = [] then ends_ws u else ends_ws rest') then ''='' else []) = ?tail"
    unfolding u(2) ends_ws_append by simp
  show ?case
  proof (cases "75 < pos + ?le")
    case True
    from "2.IH"(1) [OF u(4) [symmetric] refl refl refl True]
    obtain bs where bs: "length bs = length (units rest')"
      "qp_loop rest' ?le (dst @ ''='' @ CRLF @ ?enc) (ends_ws u) =
         (dst @ ''='' @ CRLF @ ?enc) @ concat (map2 qp_piece bs (units rest')) @
         (if (if rest' = [] then ends_ws u else ends_ws rest') then ''='' else [])"
      by blast
    have "qp_loop (c # rest) pos dst eis =
        dst @ concat (map2 qp_piece (True # bs) (units (c # rest))) @ ?tail"
      using True bs(2) by (simp add: u(1,4) tail qp_piece_def soft_break_def del: units.simps)
    with bs(1) show ?thesis
      by (intro exI [of _ "True # bs"]) (simp add: u(1) del: units.simps)
  next
    case False
    from "2.IH"(2) [OF u(4) [symmetric] refl refl refl False]
    obtain bs where bs: "length bs = length (units rest')"
      "qp_loop rest' (pos + ?le) (dst @ ?enc) (ends_ws u) =
         (dst @ ?enc) @ concat (map2 qp_piece bs (units rest')) @
         (if (if rest' = [] then ends_ws u else ends_ws rest') then ''='' else [])"
      by blast
    have "qp_loop (c # rest) pos dst eis =
        dst @ concat (map2 qp_piece (False # bs) (units (c # rest))) @ ?tail"
      using False bs(2) by (simp add: u(1,4) tail qp_piece_def soft_break_def del: units.simps)
    with bs(1) show ?thesis
      by (intro exI [of _ "False # bs"]) (simp add: u(1) del: units.simps)
  qed
qed

subsection \<open>Decoding quoted-printable\<close>

lemma remove_all_skip:
  "m \<noteq> [] \<Longrightarrow> x \<noteq> hd m \<Longrightarrow> remove_all m (x # Y) = x # remove_all m Y"
  by (cases m) auto

lemma remove_all_marker:
  "m \<noteq> [] \<Longrightarrow> remove_all m (m @ Y) = remove_all m Y"
  by (cases m) auto

lemma remove_all_skips:
  "m \<noteq> [] \<Longrightarrow> hd m \<notin> set xs \<Longrightarrow> remove_all m (xs @ Y) = xs @ remove_all m Y"
  by (induction xs) (auto simp: remove_all_skip simp del: remove_all.simps)

lemma soft_hexenc:
  "remove_all soft_break (hexenc c @ Y) = hexenc c @ remove_all soft_break Y"
proof -
  obtain h l where hl: "hexenc c = [CHR ''='', h, l]" "h \<noteq> CHR ''=''" "l \<noteq> CHR ''=''"
      "h \<noteq> CHR 0x0D"
    using hexenc_parts [of c] by blast
  have "remove_all soft_break (CHR ''='' # h # l # Y)
      = CHR ''='' # remove_all soft_break (h # l # Y)"
    using hl(4) by (simp add: CRLF_def soft_break_def)
  also have "\<dots> = CHR ''='' # h # l # remove_all soft_break Y"
    using hl(2,3) by (simp add: remove_all_skip soft_break_def del: remove_all.simps)
  finally show ?thesis by (simp add: hl(1))
qed

lemma soft_qp_byte:
  "remove_all soft_break (qp_byte c @ Y) = qp_byte c @ remove_all soft_break Y"
proof (cases "qp_byte c = hexenc c")
  case True
  then show ?thesis by (simp only: soft_hexenc)
next
  case False
  then have "qp_byte c = [c]" "c \<noteq> CHR ''=''"
    by (auto simp: qp_byte_def split: if_splits)
  then show ?thesis by (simp add: remove_all_skip soft_break_def del: remove_all.simps)
qed

lemma soft_qp_unit:
  "remove_all soft_break (concat (map qp_byte u) @ Y)
     = concat (map qp_byte u) @ remove_all soft_break Y"
  by (induction u) (simp_all add: soft_qp_byte del: remove_all.simps)

lemma soft_qp_piece:
  "remove_all soft_break (qp_piece b u @ Y)
     = concat (map qp_byte u) @ remove_all soft_break Y"
proof -
  have "soft_break \<noteq> []" by (simp add: soft_break_def)
  from remove_all_marker [OF this] show ?thesis
    by (simp add: qp_piece_def soft_qp_unit del: remove_all.simps)
qed

lemma unescape_hexenc:
  "unescape soft q (hexenc c @ Z) = c # unescape soft q Z"
proof -
  obtain h l where hl: "hexenc c = [CHR ''='', h, l]" "is_hex h" "is_hex l"
      "char_of (16 * hexval h + hexval l) = c"
    using hexenc_parts [of c] by blast
  then show ?thesis by simp
qed

lemma unescape_qp_byte:
  "unescape soft False (qp_byte c @ Z) = c # unescape soft False Z"
proof (cases "qp_byte c = hexenc c")
  case True
  then show ?thesis by (simp only: unescape_hexenc)
next
  case False
  then have "qp_byte c = [c]" "c \<noteq> CHR ''=''"
    by (auto simp: qp_byte_def split: if_splits)
  then show ?thesis by simp
qed

lemma unescape_qp_unit:
  "unescape soft False (concat (map qp_byte u) @ Z) = u @ unescape soft False Z"
  by (induction u) (simp_all add: unescape_qp_byte del: unescape.simps)

lemma decode_qp_pieces:
  "length bs = length us \<Longrightarrow>
   unescape soft False (remove_all soft_break (concat (map2 qp_piece bs us) @ Y))
     = concat us @ unescape soft False (remove_all soft_break Y)"
proof (induction bs us rule: list_induct2)
  case Nil
  show ?case by simp
next
  case (Cons b bs u us)
  then show ?case
    by (simp add: soft_qp_piece unescape_qp_unit del: remove_all.simps unescape.simps)
qed

lemma concat_units: "concat (units src) = src"
  by (induction src rule: units.induct) simp_all

lemma QuotedPrintableEncode_struct:
  "\<exists>bs. length bs = length (units src) \<and>
     QuotedPrintableEncode src =
       concat (map2 qp_piece bs (units src)) @ (if ends_ws src then ''='' else [])"
proof (cases "src = []")
  case True
  then show ?thesis by (simp add: QuotedPrintableEncode_def ends_ws_def)
next
  case False
  with qp_loop_struct [of src 0 "[]" False] show ?thesis
    by (simp add: QuotedPrintableEncode_def)
qed

lemma qp_roundtrip: "qp_decode (QuotedPrintableEncode src) = src"
proof -
  obtain bs where bs: "length bs = length (units src)"
    "QuotedPrintableEncode src =
       concat (map2 qp_piece bs (units src)) @ (if ends_ws src then ''='' else [])"
    using QuotedPrintableEncode_struct by blast
  have "unescape True False (remove_all soft_break (if ends_ws src then ''='' else [])) = []"
    by (simp add: CRLF_def soft_break_def)
  with decode_qp_pieces [OF bs(1), of True "if ends_ws src then ''='' else []"]
  show ?thesis
    by (simp only: qp_decode_def bs(2) concat_units append_Nil2)
qed

subsection \<open>Q-encoding\<close>

lemma high_q_byte: "128 \<le> (of_char c :: nat) \<Longrightarrow> q_byte c = hexenc c"
  by (auto simp: q_byte_def less_eq_char_def)

lemma map_q_byte_cont:
  "map q_byte (takeWhile is_cont rest) = map hexenc (takeWhile is_cont rest)"
  by (rule map_cong [OF refl]) (auto dest!: set_takeWhileD cont_ge high_q_byte)

lemma q_switch_units:
  "\<exists>u rest'. units (c # rest) = u # units rest' \<and>
     q_switch c rest = (concat (map q_byte u), rest')"
proof (cases "is_lead c")
  case True
  let ?u = "c # takeWhile is_cont rest"
  have hi: "128 \<le> (of_char c :: nat)" using lead_ge [OF True] by simp
  have "q_switch c rest = (hexenc c @ concat (map hexenc (takeWhile is_cont rest)),
      dropWhile is_cont rest)"
    using True lead_ge [OF True]
    by (auto simp: q_switch_def utf8_tail_eq is_lead_def less_eq_char_def)
  then have "q_switch c rest = (concat (map q_byte ?u), dropWhile is_cont rest)"
    by (simp add: high_q_byte [OF hi] map_q_byte_cont)
  moreover have "units (c # rest) = ?u # units (dropWhile is_cont rest)"
    using True by simp
  ultimately show ?thesis by blast
next
  case False
  then have "q_switch c rest = (q_byte c, rest)"
    by (auto simp: q_switch_def q_byte_def is_lead_def)
  then have "q_switch c rest = (concat (map q_byte [c]), rest)"
    by simp
  moreover have "units (c # rest) = [c] # units rest"
    using False by simp
  ultimately show ?thesis by blast
qed

lemma q_loop_struct:
  "dst \<noteq> [] \<Longrightarrow>
   \<exists>bs. length bs = length (units src) \<and>
     fst (q_loop src pos dst) = dst @ concat (map2 q_piece bs (units src)) @ ''?=''"
proof (induction src pos dst rule: q_loop.induct)
  case (1 pos dst)
  show ?case by simp
next
  case (2 c rest pos dst)
  obtain u rest' where u: "units (c # rest) = u # units rest'"
      "q_switch c rest = (concat (map q_byte u), rest')"
    using q_switch_units by blast
  let ?enc = "concat (map q_byte u)"
  let ?le = "int (length ?enc)"
  have dst: "0 < length dst" "length dst \<noteq> 0" using "2.prems" by simp_all
  show ?case
  proof (cases "74 < wrap64 (pos + ?le)")
    case True
    have ne: "dst @ ''?='' @ CRLF @ '' =?utf-8?q?'' @ ?enc \<noteq> []" by simp
    from "2.IH"(1) [OF u(2) [symmetric] refl refl True dst(1) ne]
    obtain bs where bs: "length bs = length (units rest')"
      "fst (q_loop rest' (?le + 11) (dst @ ''?='' @ CRLF @ '' =?utf-8?q?'' @ ?enc)) =
         (dst @ ''?='' @ CRLF @ '' =?utf-8?q?'' @ ?enc) @
           concat (map2 q_piece bs (units rest')) @ ''?=''"
      by blast
    have "fst (q_loop (c # rest) pos dst) =
        dst @ concat (map2 q_piece (True # bs) (units (c # rest))) @ ''?=''"
      using True dst bs(2) by (simp add: u q_piece_def q_fold_def del: units.simps)
    with bs(1) show ?thesis
      by (intro exI [of _ "True # bs"]) (simp add: u(1) del: units.simps)
  next
    case False
    have ne: "dst @ ?enc \<noteq> []" using "2.prems" by simp
    from "2.IH"(4) [OF u(2) [symmetric] refl refl False dst(2) ne]
    obtain bs where bs: "length bs = length (units rest')"
      "fst (q_loop rest' (wrap64 (pos + ?le)) (dst @ ?enc)) =
         (dst @ ?enc) @ concat (map2 q_piece bs (units rest')) @ ''?=''"
      by blast
    have "fst (q_loop (c # rest) pos dst) =
        dst @ concat (map2 q_piece (False # bs) (units (c # rest))) @ ''?=''"
      using False dst bs(2) by (simp add: u q_piece_def del: units.simps)
    with bs(1) show ?thesis
      by (intro exI [of _ "False # bs"]) (simp add: u(1) del: units.simps)
  qed
qed

lemma QEncode_struct:
  "\<exists>b bs. length (False # bs) = length (units src) \<and>
     fst (QEncode src offset) =
       (if b then CRLF @ '' '' else []) @ ''=?utf-8?q?'' @
       concat (map2 q_piece (False # bs) (units src)) @ ''?=''"
  if "src \<noteq> []"
proof -
  from that obtain c rest where src: "src = c # rest" by (cases src) auto
  obtain u rest' where u: "units (c # rest) = u # units rest'"
      "q_switch c rest = (concat (map q_byte u), rest')"
    using q_switch_units by blast
  let ?enc = "concat (map q_byte u)"
  let ?le = "int (length ?enc)"
  let ?pos = "wrap64 (10 + (if offset < 1 then 1 else offset))"
  show ?thesis
  proof (cases "74 < wrap64 (?pos + ?le)")
    case True
    obtain bs where bs: "length bs = length (units rest')"
      "fst (q_loop rest' (?le + 11) (CRLF @ '' =?utf-8?q?'' @ ?enc)) =
         (CRLF @ '' =?utf-8?q?'' @ ?enc) @ concat (map2 q_piece bs (units rest')) @ ''?=''"
      using q_loop_struct [of "CRLF @ '' =?utf-8?q?'' @ ?enc" rest' "?le + 11"] by auto
    have "fst (QEncode src offset) =
        (CRLF @ '' '') @ ''=?utf-8?q?'' @
        concat (map2 q_piece (False # bs) (units src)) @ ''?=''"
      using True bs(2) by (simp add: QEncode_def src u q_piece_def del: units.simps)
    with bs(1) show ?thesis
      by (intro exI [of _ True] exI [of _ bs]) (simp add: src u(1) del: units.simps)
  next
    case False
    obtain bs where bs: "length bs = length (units rest')"
      "fst (q_loop rest' (wrap64 (?pos + ?le)) (''=?utf-8?q?'' @ ?enc)) =
         (''=?utf-8?q?'' @ ?enc) @ concat (map2 q_piece bs (units rest')) @ ''?=''"
      using q_loop_struct [of "''=?utf-8?q?'' @ ?enc" rest' "wrap64 (?pos + ?le)"] by auto
    have "fst (QEncode src offset) =
        ''=?utf-8?q?'' @ concat (map2 q_piece (False # bs) (units src)) @ ''?=''"
      using False bs(2) by (simp add: QEncode_def src u q_piece_def del: units.simps)
    with bs(1) show ?thesis
      by (intro exI [of _ False] exI [of _ bs]) (simp add: src u(1) del: units.simps)
  qed
qed

lemma q_byte_no_qmark: "CHR ''?'' \<notin> set (q_byte c)"
proof (cases "q_byte c = hexenc c")
  case True
  with hexenc_parts [of c] show ?thesis by auto
next
  case False
  then show ?thesis by (auto simp: q_byte_def split: if_splits)
qed

lemma fold_q_unit:
  "remove_all q_fold (concat (map q_byte u) @ Y) = concat (map q_byte u) @ remove_all q_fold Y"
proof -
  have "hd q_fold \<notin> set (concat (map q_byte u))"
    using q_byte_no_qmark by (auto simp: q_fold_def)
  moreover have "q_fold \<noteq> []" by (simp add: q_fold_def)
  ultimately show ?thesis by (rule remove_all_skips [rotated])
qed

lemma fold_q_piece:
  "remove_all q_fold (q_piece b u @ Y) = concat (map q_byte u) @ remove_all q_fold Y"
proof -
  have "q_fold \<noteq> []" by (simp add: q_fold_def)
  from remove_all_marker [OF this] show ?thesis
    by (simp add: q_piece_def fold_q_unit del: remove_all.simps)
qed

lemma unescape_q_byte:
  "unescape soft True (q_byte c @ Z) = c # unescape soft True Z"
proof (cases "q_byte c = hexenc c")
  case True
  then show ?thesis by (simp only: unescape_hexenc)
next
  case False
  then consider "c = CHR '' ''" "q_byte c = ''_''"
    | "q_byte c = [c]" "c \<noteq> CHR ''=''" "c \<noteq> CHR ''_''"
    by (auto simp: q_byte_def split: if_splits)
  then show ?thesis by cases simp_all
qed

lemma unescape_q_unit:
  "unescape soft True (concat (map q_byte u) @ Z) = u @ unescape soft True Z"
  by (induction u) (simp_all add: unescape_q_byte del: unescape.simps)

lemma decode_q_pieces:
  "length bs = length us \<Longrightarrow>
   unescape soft True (remove_all q_fold (concat (map2 q_piece bs us) @ Y))
     = concat us @ unescape soft True (remove_all q_fold Y)"
proof (induction bs us rule: list_induct2)
  case Nil
  show ?case by simp
next
  case (Cons b bs u us)
  then show ?case
    by (simp add: fold_q_piece unescape_q_unit del: remove_all.simps unescape.simps)
qed

lemma strip_suffix_append: "strip_suffix s (xs @ s) = xs"
  by (simp add: strip_suffix_def)

lemma q_roundtrip: "q_decode (fst (QEncode src offset)) = src"
proof (cases "src = []")
  case True
  then show ?thesis
    by (simp add: QEncode_def q_decode_def strip_prefix_def strip_suffix_def)
next
  case False
  from QEncode_struct [OF False, of offset]
  obtain b bs where bs: "length (False # bs) = length (units src)"
    "fst (QEncode src offset) =
       (if b then CRLF @ '' '' else []) @ ''=?utf-8?q?'' @
       concat (map2 q_piece (False # bs) (units src)) @ ''?=''"
    by blast
  let ?W = "concat (map2 q_piece (False # bs) (units src))"
  have "strip_prefix (CRLF @ '' '') (fst (QEncode src offset)) = ''=?utf-8?q?'' @ ?W @ ''?=''"
    unfolding bs(2) by (cases b) (simp_all add: strip_prefix_def CRLF_def)
  then have "strip_suffix ''?='' (strip_prefix ''=?utf-8?q?''
      (strip_prefix (CRLF @ '' '') (fst (QEncode src offset)))) = ?W"
    using strip_suffix_append [of "''?=''" ?W] by (simp add: strip_prefix_def)
  then have "q_decode (fst (QEncode src offset)) = unescape False True (remove_all q_fold (?W @ []))"
    by (simp add: q_decode_def)
  also have "\<dots> = concat (units src)"
    using decode_q_pieces [OF bs(1), of False "[]"] by simp
  finally show ?thesis by (simp add: concat_units)
qed

text \<open>
  C1 (as amended). For every input, the output of \<open>QuotedPrintableEncode\<close> and of
  \<open>QEncode\<close> at any offset is the sequence of the encoded units of the input, a unit
  being a lead byte with the continuation bytes after it or a single other byte;
  a soft break \<^verbatim>\<open>=CRLF\<close> or a fold \<^verbatim>\<open>?=CRLF space=?utf-8?q?\<close> stands only in front of
  a unit, never inside one. Decoding gives back the input: for quoted-printable,
  remove the soft breaks, drop the lone \<^verbatim>\<open>=\<close> that ends the output after trailing
  white space, and un-escape; for Q-encoding, take off the encoded-word delimiters,
  remove the folds, un-escape and read \<^verbatim>\<open>_\<close> as a space.
\<close>

theorem encoders_keep_units_and_decode:
  "(\<exists>bs. length bs = length (units src) \<and>
      QuotedPrintableEncode src =
        concat (map2 qp_piece bs (units src)) @ (if ends_ws src then ''='' else [])) \<and>
   qp_decode (QuotedPrintableEncode src) = src \<and>
   ((src = [] \<and> fst (QEncode src offset) = []) \<or>
    (\<exists>b bs. length (False # bs) = length (units src) \<and>
       fst (QEncode src offset) =
         (if b then CRLF @ '' '' else []) @ ''=?utf-8?q?'' @
         concat (map2 q_piece (False # bs) (units src)) @ ''?='')) \<and>
   q_decode (fst (QEncode src offset)) = src \<and>
   concat (units src) = src"
proof (intro conjI)
  show "(src = [] \<and> fst (QEncode src offset) = []) \<or>
    (\<exists>b bs. length (False # bs) = length (units src) \<and>
       fst (QEncode src offset) =
         (if b then CRLF @ '' '' else []) @ ''=?utf-8?q?'' @
         concat (map2 q_piece (False # bs) (units src)) @ ''?='')"
  proof (cases "src = []")
    case True
    then show ?thesis by (simp add: QEncode_def)
  next
    case False
    from QEncode_struct [OF False, of offset] show ?thesis by (rule disjI2)
  qed
qed (rule QuotedPrintableEncode_struct qp_roundtrip q_roundtrip concat_units)+

text \<open>
  The claim as it is written decodes quoted-printable by removing \<^verbatim>\<open>=CRLF\<close> and
  un-escaping \<^verbatim>\<open>=XX\<close> only. An input that ends in a space is encoded with a
  closing \<^verbatim>\<open>=\<close>, which that decoding leaves in place.
\<close>

theorem qp_strict_decoding_counterexample:
  "QuotedPrintableEncode '' '' = '' ='' \<and>
   qp_decode_strict (QuotedPrintableEncode '' '') \<noteq> '' ''"
  by (simp add: qp_decode_strict_def QuotedPrintableEncode_def qp_switch_def CRLF_def
      soft_break_def)

subsection \<open>Encoding an address\<close>

lemma name_scan_snd:
  "snd (name_scan xs nq safe) = (safe \<and> list_all (\<lambda>c. CHR '' '' \<le> c \<and> c \<le> CHR ''~'') xs)"
  by (induction xs nq safe rule: name_scan.induct) auto

lemma quote_name_plain:
  "list_all (\<lambda>c. c \<noteq> CHR 0x5C \<and> c \<noteq> CHR 0x22) xs \<Longrightarrow> quote_name dst xs = dst @ xs"
  by (induction dst xs rule: quote_name.induct) simp_all

lemma QEncode_head:
  assumes "src \<noteq> []"
  shows "hd (fst (QEncode src offset)) \<noteq> CHR 0x22" and "fst (QEncode src offset) \<noteq> []"
proof -
  from QEncode_struct [OF assms, of offset]
  obtain b W where "fst (QEncode src offset) = (if b then CRLF @ '' '' else []) @ ''=?utf-8?q?'' @ W"
    by blast
  then show "hd (fst (QEncode src offset)) \<noteq> CHR 0x22" and "fst (QEncode src offset) \<noteq> []"
    by (cases b; simp add: CRLF_def)+
qed

lemma encode_safe:
  assumes "Name a \<noteq> []"
    and "list_all (\<lambda>c. CHR '' '' \<le> c \<and> c \<le> CHR ''~'' \<and> c \<noteq> CHR 0x22 \<and> c \<noteq> CHR 0x5C) (Name a)"
  shows "\<exists>sep. (sep = '' '' \<or> sep = CRLF @ '' '') \<and>
           fst (encode a offset) = [CHR 0x22] @ Name a @ [CHR 0x22] @ sep @ ''<'' @ Addr a @ ''>''"
proof -
  from assms(2) have safe: "list_all (\<lambda>c. CHR '' '' \<le> c \<and> c \<le> CHR ''~'') (Name a)"
    and plain: "list_all (\<lambda>c. c \<noteq> CHR 0x5C \<and> c \<noteq> CHR 0x22) (Name a)"
    by (simp_all add: list_all_iff)
  obtain nq s where ns: "name_scan (Name a) 0 True = (nq, s)" by (cases "name_scan (Name a) 0 True")
  with name_scan_snd [of "Name a" 0 True] safe have s: "s" by simp
  show ?thesis
    using assms(1) by (auto simp: encode_def Let_def ns s quote_name_plain [OF plain])
qed

lemma encode_unsafe:
  assumes "\<not> list_all (\<lambda>c. CHR '' '' \<le> c \<and> c \<le> CHR ''~'') (Name a)"
  shows "\<exists>sep. (sep = '' '' \<or> sep = CRLF @ '' '') \<and>
           fst (encode a offset) = fst (QEncode (Name a) offset) @ sep @ ''<'' @ Addr a @ ''>''"
proof -
  from assms have ne: "Name a \<noteq> []" by auto
  obtain nq s where ns: "name_scan (Name a) 0 True = (nq, s)" by (cases "name_scan (Name a) 0 True")
  with name_scan_snd [of "Name a" 0 True] assms have s: "\<not> s" by simp
  show ?thesis
    using ne by (auto simp: encode_def Let_def ns s split: prod.splits)
qed

text \<open>
  C6. An address whose display name is not empty and holds only printable ASCII
  bytes other than the quote and the backslash is encoded with the name as a quoted
  literal, and this output never starts with a Q-encoded word. An address whose
  name holds a byte outside printable ASCII (a control character or a byte from
  0x80) is encoded with the name as Q-encoded words. Both outputs end with the
  address between \<^verbatim>\<open><\<close> and \<^verbatim>\<open>>\<close>.
\<close>

theorem encode_quotes_or_q_encodes:
  assumes "Name a \<noteq> []"
    and "list_all (\<lambda>c. CHR '' '' \<le> c \<and> c \<le> CHR ''~'' \<and> c \<noteq> CHR 0x22 \<and> c \<noteq> CHR 0x5C) (Name a)"
    and "list_ex (\<lambda>c. c < CHR '' '' \<or> CHR ''~'' < c) (Name b)"
  shows "(\<exists>sep. (sep = '' '' \<or> sep = CRLF @ '' '') \<and>
            fst (encode a offset) = [CHR 0x22] @ Name a @ [CHR 0x22] @ sep @ ''<'' @ Addr a @ ''>'') \<and>
         (\<forall>off rest. fst (encode a offset) \<noteq> fst (QEncode (Name a) off) @ rest) \<and>
         (\<exists>sep. (sep = '' '' \<or> sep = CRLF @ '' '') \<and>
            fst (encode b offset) = fst (QEncode (Name b) offset) @ sep @ ''<'' @ Addr b @ ''>'') \<and>
         (\<exists>fold W. (fold = [] \<or> fold = CRLF @ '' '') \<and>
            fst (QEncode (Name b) offset) = fold @ ''=?utf-8?q?'' @ W @ ''?='') \<and>
         q_decode (fst (QEncode (Name b) offset)) = Name b"
proof -
  from assms(3) obtain c where c: "c \<in> set (Name b)" "c < CHR '' '' \<or> CHR ''~'' < c"
    by (auto simp: list_ex_iff)
  from c(2) have "\<not> (CHR '' '' \<le> c \<and> c \<le> CHR ''~'')"
    using leD by blast
  with c(1) have unsafe: "\<not> list_all (\<lambda>c. CHR '' '' \<le> c \<and> c \<le> CHR ''~'') (Name b)"
    by (auto simp: list_all_iff)
  then have neb: "Name b \<noteq> []" by auto
  from encode_safe [OF assms(1,2), of offset]
  obtain sep where sep: "sep = '' '' \<or> sep = CRLF @ '' ''"
    "fst (encode a offset) = [CHR 0x22] @ Name a @ [CHR 0x22] @ sep @ ''<'' @ Addr a @ ''>''"
    by blast
  have "fst (encode a offset) \<noteq> fst (QEncode (Name a) off) @ rest" for off rest
  proof
    assume eq: "fst (encode a offset) = fst (QEncode (Name a) off) @ rest"
    have "hd (fst (encode a offset)) = CHR 0x22"
      unfolding sep(2) by simp
    moreover have "hd (fst (QEncode (Name a) off) @ rest) = hd (fst (QEncode (Name a) off))"
      using QEncode_head(2) [OF assms(1), of off] by (rule hd_append2)
    ultimately have "hd (fst (QEncode (Name a) off)) = CHR 0x22"
      by (simp only: eq)
    with QEncode_head(1) [OF assms(1), of off] show False by contradiction
  qed
  note part2 = this
  from QEncode_struct [OF neb, of offset]
  obtain fb bs where fb: "fst (QEncode (Name b) offset) =
       (if fb then CRLF @ '' '' else []) @ ''=?utf-8?q?'' @
       concat (map2 q_piece (False # bs) (units (Name b))) @ ''?=''"
    by blast
  have part4: "\<exists>fold W. (fold = [] \<or> fold = CRLF @ '' '') \<and>
            fst (QEncode (Name b) offset) = fold @ ''=?utf-8?q?'' @ W @ ''?=''"
    by (rule exI [of _ "if fb then CRLF @ '' '' else []"],
        rule exI [of _ "concat (map2 q_piece (False # bs) (units (Name b)))"])
      (simp add: fb)
  have part1: "\<exists>sep. (sep = '' '' \<or> sep = CRLF @ '' '') \<and>
            fst (encode a offset) = [CHR 0x22] @ Name a @ [CHR 0x22] @ sep @ ''<'' @ Addr a @ ''>''"
    using sep by (intro exI [of _ sep] conjI)
  show ?thesis
    using part1 part2 encode_unsafe [OF unsafe, of offset] part4 q_roundtrip [of "Name b" offset]
    by (intro conjI allI)
qed

theorem encode_quotes_or_q_encodes_witness:
  "list_all (\<lambda>c. CHR '' '' \<le> c \<and> c \<le> CHR ''~'' \<and> c \<noteq> CHR 0x22 \<and> c \<noteq> CHR 0x5C) ''test name'' \<and>
   list_ex (\<lambda>c. c < CHR '' '' \<or> CHR ''~'' < c) [CHR ''n'', CHR 0xC3, CHR 0xA5] \<and>
   (\<exists>sep. (sep = '' '' \<or> sep = CRLF @ '' '') \<and>
      fst (encode \<lparr>Name = ''test name'', Addr = ''test@example.com''\<rparr> 6)
        = [CHR 0x22] @ ''test name'' @ [CHR 0x22] @ sep @ ''<test@example.com>'') \<and>
   (\<exists>sep. (sep = '' '' \<or> sep = CRLF @ '' '') \<and>
      fst (encode \<lparr>Name = [CHR ''n'', CHR 0xC3, CHR 0xA5], Addr = ''test@example.com''\<rparr> 6)
        = fst (QEncode [CHR ''n'', CHR 0xC3, CHR 0xA5] 6) @ sep @ ''<test@example.com>'') \<and>
   q_decode (fst (QEncode [CHR ''n'', CHR 0xC3, CHR 0xA5] 6)) = [CHR ''n'', CHR 0xC3, CHR 0xA5]"
  using encode_quotes_or_q_encodes [of "\<lparr>Name = ''test name'', Addr = ''test@example.com''\<rparr>"
      "\<lparr>Name = [CHR ''n'', CHR 0xC3, CHR 0xA5], Addr = ''test@example.com''\<rparr>" 6]
  by (simp add: less_eq_char_def less_char_def)

subsection \<open>Base64: the bytes of a group\<close>















































subsection \<open>Base64: the loop\<close>










end
